theory Spec2Isabelle
  imports Complex_Main "HOL-Library.Word" "HOL-Library.Sublist"
begin

unbundle bit_operations_syntax

section \<open>Hash-based video frame deduplication: the model of \<open>video_dedup.py\<close>\<close>

subsection \<open>Errors\<close>

text \<open>
  The exceptions the source can raise on the paths modelled here:
  \<open>FileNotFoundError\<close> (constructor, missing video), \<open>ValueError\<close> (the capture cannot be
  opened), \<open>ZeroDivisionError\<close> (\<open>frame_count % interval\<close>), \<open>IndexError\<close> (\<open>frames[0]\<close>)
  and \<open>KeyError\<close> (\<open>hash_to_frame[processed_hash_str]\<close>).
\<close>

datatype error = FileNotFoundError | ValueError | ZeroDivisionError | IndexError | KeyError

subsection \<open>Fingerprints and their distance\<close>

text \<open>
  \<open>generate_hashes\<close> stores \<open>str(imagehash.phash(img))\<close>: with the default hash size 8
  this is the 16-digit hexadecimal rendering of a 64-bit vector, and \<open>hex_to_hash\<close> reads
  the same 64 bits back. A fingerprint string is therefore represented by the 64-bit word
  it denotes; two strings are equal exactly when their words are.
\<close>

type_synonym fingerprint = "64 word"

text \<open>
  Modelled from the spec: the library functions \<open>imagehash.hex_to_hash\<close> and the
  subtraction of two \<open>ImageHash\<close> objects are not part of the repository. The spec says
  that two fingerprints are compared via Hamming distance, the count of differing bits
  of the two 64-bit vectors.
\<close>

definition hamming :: "fingerprint \<Rightarrow> fingerprint \<Rightarrow> nat" where
  "hamming a b = length (filter (bit (a XOR b)) [0..<64])"

subsection \<open>Python containers\<close>

text \<open>
  A \<open>dict\<close> keeps its keys in insertion order; assigning to a key that is present
  replaces the value where the key stands. Looking up an absent key raises \<open>KeyError\<close>.
\<close>

fun dict_set :: "('k \<times> 'v) list \<Rightarrow> 'k \<Rightarrow> 'v \<Rightarrow> ('k \<times> 'v) list" where
  "dict_set [] k v = [(k, v)]"
| "dict_set ((k', v') # d) k v =
     (if k' = k then (k, v) # d else (k', v') # dict_set d k v)"

definition dict_get :: "('k \<times> 'v) list \<Rightarrow> 'k \<Rightarrow> error + 'v" where
  "dict_get d k = (case map_of d k of None \<Rightarrow> Inl KeyError | Some v \<Rightarrow> Inr v)"

text \<open>
  \<open>processed_hashes\<close> is a Python \<open>set\<close>. Its members are held here in the order in which
  they were added; \<open>set.add\<close> of a member that is present changes nothing.
\<close>

definition set_add :: "'a list \<Rightarrow> 'a \<Rightarrow> 'a list" where
  "set_add ks k = (if k \<in> set ks then ks else ks @ [k])"

text \<open>
  Python does not define the order in which \<open>for x in a_set\<close> visits the members (for
  strings it follows the per-process randomised string hash), only that every member is
  visited. The order is therefore a parameter \<open>iter\<close> of the model: it maps the members, in
  insertion order, to the sequence in which the loop visits them.
\<close>

type_synonym set_order = "fingerprint list \<Rightarrow> fingerprint list"

definition set_iteration :: "set_order \<Rightarrow> bool" where
  "set_iteration iter = (\<forall>ks. set (iter ks) = set ks)"

text \<open>Two admissible orders: the insertion order itself, and its reverse.\<close>

definition insertion_order :: set_order where
  "insertion_order ks = ks"

definition reverse_order :: set_order where
  "reverse_order ks = rev ks"

subsection \<open>\<open>extract_frames\<close>\<close>

text \<open>
  The capture is \<open>None\<close> when \<open>cap.isOpened()\<close> is false, otherwise the sequence of images
  that successive \<open>cap.read()\<close> calls deliver. Every extracted image is written to a
  temporary file of its own, named after \<open>frame_count\<close>; the file is identified with the
  image it holds. \<open>interval\<close> is \<open>None\<close> or a Python integer.
\<close>

fun extract_loop ::
  "int option \<Rightarrow> 'img list \<Rightarrow> int \<Rightarrow> (int \<times> 'img) list \<Rightarrow> error + (int \<times> 'img) list" where
  "extract_loop interval [] frame_count frames = Inr frames"
| "extract_loop interval (frame # rest) frame_count frames =
     (case interval of
        None \<Rightarrow> extract_loop interval rest (frame_count + 1) (frames @ [(frame_count, frame)])
      | Some i \<Rightarrow>
          if i = 0 then Inl ZeroDivisionError
          else if frame_count mod i = 0
          then extract_loop interval rest (frame_count + 1) (frames @ [(frame_count, frame)])
          else extract_loop interval rest (frame_count + 1) frames)"

definition extract_frames ::
  "int option \<Rightarrow> 'img list option \<Rightarrow> error + (int \<times> 'img) list" where
  "extract_frames interval cap =
     (case cap of
        None \<Rightarrow> Inl ValueError
      | Some video \<Rightarrow> extract_loop interval video 0 [])"

text \<open>The message logged before the loop, chosen by the truth value of \<open>interval\<close>.\<close>

definition interval_message :: "int option \<Rightarrow> string" where
  "interval_message interval =
     (case interval of
        None \<Rightarrow> ''Extracting all frames''
      | Some i \<Rightarrow> if i = 0 then ''Extracting all frames''
                  else ''Extracting frames at intervals'')"

subsection \<open>\<open>generate_hashes\<close>\<close>

text \<open>
  \<open>phash\<close> stands for opening the frame's file and hashing it; \<open>None\<close> is any exception
  raised on the way, which the loop catches, logs as a warning and passes over.
\<close>

fun generate_hashes_loop ::
  "('img \<Rightarrow> fingerprint option) \<Rightarrow> (int \<times> 'img) list \<Rightarrow> (int \<times> fingerprint) list
     \<Rightarrow> (int \<times> fingerprint) list" where
  "generate_hashes_loop phash [] hashes = hashes"
| "generate_hashes_loop phash ((frame_num, frame_path) # frames) hashes =
     (case phash frame_path of
        Some h \<Rightarrow> generate_hashes_loop phash frames (dict_set hashes frame_num h)
      | None \<Rightarrow> generate_hashes_loop phash frames hashes)"

definition generate_hashes ::
  "('img \<Rightarrow> fingerprint option) \<Rightarrow> (int \<times> 'img) list \<Rightarrow> (int \<times> fingerprint) list" where
  "generate_hashes phash frames = generate_hashes_loop phash frames []"

subsection \<open>\<open>find_duplicates\<close>\<close>

text \<open>
  The local state of \<open>find_duplicates\<close>. \<open>debug_log\<close> records the debug messages: the
  duplicate frame, the frame it is reported a duplicate of, and the difference.
\<close>

record detector =
  duplicates :: "int list"
  processed_hashes :: "fingerprint list"
  hash_to_frame :: "(fingerprint \<times> int) list"
  debug_log :: "(int \<times> int \<times> nat) list"

text \<open>The inner loop: the first visited member within the threshold, and the difference.\<close>

fun scan_processed :: "int \<Rightarrow> fingerprint \<Rightarrow> fingerprint list \<Rightarrow> (fingerprint \<times> nat) option" where
  "scan_processed threshold h [] = None"
| "scan_processed threshold h (p # ps) =
     (let difference = hamming h p
      in if int difference \<le> threshold then Some (p, difference)
         else scan_processed threshold h ps)"

text \<open>One pass of the outer loop's body, for the item \<open>(frame_num, h)\<close>.\<close>

definition detect_frame ::
  "set_order \<Rightarrow> int \<Rightarrow> detector \<Rightarrow> int \<Rightarrow> fingerprint \<Rightarrow> error + detector" where
  "detect_frame iter threshold s frame_num h =
     (case scan_processed threshold h (iter (processed_hashes s)) of
        Some (p, difference) \<Rightarrow>
          (case dict_get (hash_to_frame s) p of
             Inl e \<Rightarrow> Inl e
           | Inr f \<Rightarrow>
               Inr (s\<lparr>duplicates := duplicates s @ [frame_num],
                      debug_log := debug_log s @ [(frame_num, f, difference)]\<rparr>))
      | None \<Rightarrow>
          Inr (s\<lparr>processed_hashes := set_add (processed_hashes s) h,
                 hash_to_frame := dict_set (hash_to_frame s) h frame_num\<rparr>))"

fun detect_loop ::
  "set_order \<Rightarrow> int \<Rightarrow> (int \<times> fingerprint) list \<Rightarrow> detector \<Rightarrow> error + detector" where
  "detect_loop iter threshold [] s = Inr s"
| "detect_loop iter threshold ((frame_num, h) # rest) s =
     (case detect_frame iter threshold s frame_num h of
        Inl e \<Rightarrow> Inl e
      | Inr s' \<Rightarrow> detect_loop iter threshold rest s')"

definition detector_init :: detector where
  "detector_init =
     \<lparr>duplicates = [], processed_hashes = [], hash_to_frame = [], debug_log = []\<rparr>"

text \<open>The state in which the loop of \<open>find_duplicates\<close> ends, and the list it returns.\<close>

definition detector_run ::
  "set_order \<Rightarrow> int \<Rightarrow> (int \<times> fingerprint) list \<Rightarrow> error + detector" where
  "detector_run iter threshold hashes = detect_loop iter threshold hashes detector_init"

definition find_duplicates ::
  "set_order \<Rightarrow> int \<Rightarrow> (int \<times> fingerprint) list \<Rightarrow> error + int list" where
  "find_duplicates iter threshold hashes =
     (case detector_run iter threshold hashes of
        Inl e \<Rightarrow> Inl e
      | Inr s \<Rightarrow> Inr (duplicates s))"

text \<open>
  The count of unique frames as \<open>deduplicate\<close> computes it, \<open>total - len(duplicates)\<close>,
  taken over the items handed to the detector.
\<close>

definition count_unique :: "(int \<times> fingerprint) list \<Rightarrow> int list \<Rightarrow> int" where
  "count_unique hashes dups = int (length hashes) - int (length dups)"

subsection \<open>\<open>save_unique_frames\<close>\<close>

text \<open>
  The result is the list of copies made into the output directory, each the frame number
  that names the output file and the file copied. After the copies the function removes
  the temporary directory, which it finds as the parent of \<open>frames[0][1]\<close>.
\<close>

definition save_unique_frames ::
  "(int \<times> 'img) list \<Rightarrow> int list \<Rightarrow> error + (int \<times> 'img) list" where
  "save_unique_frames frames dups =
     (let saved = filter (\<lambda>(frame_num, frame_path). frame_num \<notin> set dups) frames
      in case frames of
           [] \<Rightarrow> Inl IndexError
         | first # _ \<Rightarrow> Inr saved)"

subsection \<open>\<open>deduplicate\<close> and \<open>main\<close>\<close>

text \<open>
  What a completed run leaves behind: the saved files and the statistics it logs. The
  reduction is a Python float in the source; it is held here as the exact quotient.
\<close>

record 'img summary =
  saved_frames :: "(int \<times> 'img) list"
  total_frames :: nat
  duplicate_frames :: nat
  unique_frames :: int
  reduction_percent :: rat

definition deduplicate ::
  "set_order \<Rightarrow> ('img \<Rightarrow> fingerprint option) \<Rightarrow> int \<Rightarrow> int option \<Rightarrow> 'img list option
     \<Rightarrow> error + 'img summary" where
  "deduplicate iter phash threshold interval cap =
     (case extract_frames interval cap of
        Inl e \<Rightarrow> Inl e
      | Inr frames \<Rightarrow>
          (case find_duplicates iter threshold (generate_hashes phash frames) of
             Inl e \<Rightarrow> Inl e
           | Inr dups \<Rightarrow>
               (case save_unique_frames frames dups of
                  Inl e \<Rightarrow> Inl e
                | Inr saved \<Rightarrow>
                    Inr \<lparr>saved_frames = saved,
                         total_frames = length frames,
                         duplicate_frames = length dups,
                         unique_frames = int (length frames) - int (length dups),
                         reduction_percent =
                           (if length frames > 0
                            then of_nat (length dups) / of_nat (length frames) * 100
                            else 0)\<rparr>)))"

text \<open>
  \<open>main\<close>: a threshold outside 0..64 is a usage error; the constructor raises when the
  video path does not exist; any exception ends the process with status 1. The interval
  is passed on as parsed.
\<close>

datatype 'img outcome = Usage_Error | Exit_1 error | Completed "'img summary"

definition main ::
  "set_order \<Rightarrow> ('img \<Rightarrow> fingerprint option) \<Rightarrow> int \<Rightarrow> int option \<Rightarrow> bool \<Rightarrow> 'img list option
     \<Rightarrow> 'img outcome" where
  "main iter phash threshold interval path_exists cap =
     (if threshold < 0 \<or> threshold > 64 then Usage_Error
      else if \<not> path_exists then Exit_1 FileNotFoundError
      else (case deduplicate iter phash threshold interval cap of
              Inl e \<Rightarrow> Exit_1 e
            | Inr r \<Rightarrow> Completed r))"

section \<open>The detector without its iteration order\<close>

text \<open>
  Auxiliary notions for the proofs. A fingerprint is \<open>near\<close> a member when their distance
  is at most the threshold, and \<open>matched\<close> when some member is near. \<open>keys_known\<close> says
  that every member of \<open>processed_hashes\<close> is a key of \<open>hash_to_frame\<close>. \<open>kept_after\<close>
  and \<open>dups_after\<close> describe the members and the duplicates after a sequence of items,
  without reference to the order in which the set is visited.
\<close>

definition near :: "int \<Rightarrow> fingerprint \<Rightarrow> fingerprint \<Rightarrow> bool" where
  "near t h p = (int (hamming h p) \<le> t)"

definition matched :: "int \<Rightarrow> fingerprint list \<Rightarrow> fingerprint \<Rightarrow> bool" where
  "matched t ks h = (\<exists>p\<in>set ks. near t h p)"

definition keys_known :: "detector \<Rightarrow> bool" where
  "keys_known s = (set (processed_hashes s) \<subseteq> fst ` set (hash_to_frame s))"

fun kept_after :: "int \<Rightarrow> fingerprint list \<Rightarrow> (int \<times> fingerprint) list \<Rightarrow> fingerprint list" where
  "kept_after t ks [] = ks"
| "kept_after t ks ((n, h) # r) =
     kept_after t (if matched t ks h then ks else set_add ks h) r"

fun dups_after :: "int \<Rightarrow> fingerprint list \<Rightarrow> (int \<times> fingerprint) list \<Rightarrow> int list" where
  "dups_after t ks [] = []"
| "dups_after t ks ((n, h) # r) =
     (if matched t ks h then n # dups_after t ks r else dups_after t (set_add ks h) r)"

section \<open>Properties of the Hamming distance\<close>

lemma hamming_le_64: "hamming a b \<le> 64"
  unfolding hamming_def by (rule order_trans [OF length_filter_le]) simp

lemma hamming_self: "hamming a a = 0"
  by (simp add: hamming_def)

lemma hamming_zero_iff: "hamming a b = 0 \<longleftrightarrow> a = b"
proof
  assume "hamming a b = 0"
  then have nobit: "\<forall>n<64. \<not> bit (a XOR b) n"
    by (auto simp: hamming_def filter_empty_conv)
  show "a = b"
  proof (rule bit_word_eqI)
    fix n assume "n < LENGTH(64)"
    then have "\<not> bit (a XOR b) n" using nobit by simp
    then show "bit a n = bit b n" by (simp add: bit_xor_iff)
  qed
next
  assume "a = b"
  then show "hamming a b = 0" by (simp add: hamming_self)
qed

lemma length_filter_cover:
  "(\<And>x. P x \<Longrightarrow> Q x \<or> R x) \<Longrightarrow>
   length (filter P xs) \<le> length (filter Q xs) + length (filter R xs)"
  by (induction xs) auto

lemma hamming_triangle: "hamming a c \<le> hamming a b + hamming b c"
  unfolding hamming_def by (rule length_filter_cover) (auto simp: bit_xor_iff)

section \<open>The detector loop\<close>

lemma fst_set_dict_set: "fst ` set (dict_set d k v) = insert k (fst ` set d)"
  by (induction d k v rule: dict_set.induct) auto

lemma map_of_dict_set: "map_of (dict_set d k v) = (map_of d)(k \<mapsto> v)"
  by (induction d k v rule: dict_set.induct) auto

lemma set_set_add: "set (set_add ks k) = insert k (set ks)"
  by (auto simp: set_add_def)

lemma distinct_set_add: "distinct ks \<Longrightarrow> distinct (set_add ks k)"
  by (auto simp: set_add_def)

lemma prefix_set_add: "prefix ks (set_add ks k)"
  by (simp add: set_add_def)

lemma scan_processed_find:
  "scan_processed t h ps = map_option (\<lambda>p. (p, hamming h p)) (find (near t h) ps)"
  by (induction ps) (auto simp: Let_def near_def)

lemma scan_processed_None: "scan_processed t h ps = None \<longleftrightarrow> \<not> matched t ps h"
  by (induction ps) (auto simp: Let_def near_def matched_def)

lemma matched_cong_set: "set ps = set ks \<Longrightarrow> matched t ps h = matched t ks h"
  by (simp add: matched_def)

lemma find_near_Some:
  "matched t ps h \<Longrightarrow> \<exists>p. find (near t h) ps = Some p \<and> p \<in> set ps \<and> near t h p"
  by (induction ps) (auto simp: matched_def)

lemma keys_known_init: "keys_known detector_init"
  by (simp add: keys_known_def detector_init_def)

lemma map_of_known: "k \<in> fst ` set d \<Longrightarrow> \<exists>v. map_of d k = Some v"
  by (metis domD dom_map_of_conv_image_fst)

lemma detect_frame_duplicate:
  assumes it: "set_iteration iter" and kk: "keys_known s"
    and m: "matched t (processed_hashes s) h"
  shows "\<exists>p f. find (near t h) (iter (processed_hashes s)) = Some p
           \<and> p \<in> set (processed_hashes s) \<and> near t h p
           \<and> map_of (hash_to_frame s) p = Some f
           \<and> detect_frame iter t s n h =
               Inr (s\<lparr>duplicates := duplicates s @ [n],
                      debug_log := debug_log s @ [(n, f, hamming h p)]\<rparr>)"
proof -
  have eq: "set (iter (processed_hashes s)) = set (processed_hashes s)"
    using it by (simp add: set_iteration_def)
  then have "matched t (iter (processed_hashes s)) h"
    using m by (simp add: matched_def)
  then obtain p where p: "find (near t h) (iter (processed_hashes s)) = Some p"
      "p \<in> set (iter (processed_hashes s))" "near t h p"
    using find_near_Some by blast
  then have pin: "p \<in> set (processed_hashes s)" using eq by simp
  then have "p \<in> fst ` set (hash_to_frame s)" using kk by (auto simp: keys_known_def)
  then obtain f where f: "map_of (hash_to_frame s) p = Some f"
    using map_of_known by fastforce
  have "detect_frame iter t s n h =
      Inr (s\<lparr>duplicates := duplicates s @ [n],
             debug_log := debug_log s @ [(n, f, hamming h p)]\<rparr>)"
    by (simp add: detect_frame_def scan_processed_find p(1) dict_get_def f)
  with p pin f show ?thesis by blast
qed

lemma detect_frame_unique:
  assumes it: "set_iteration iter" and m: "\<not> matched t (processed_hashes s) h"
  shows "detect_frame iter t s n h =
           Inr (s\<lparr>processed_hashes := set_add (processed_hashes s) h,
                  hash_to_frame := dict_set (hash_to_frame s) h n\<rparr>)"
proof -
  have "set (iter (processed_hashes s)) = set (processed_hashes s)"
    using it by (simp add: set_iteration_def)
  then have "\<not> matched t (iter (processed_hashes s)) h"
    using m by (simp add: matched_def)
  then have "scan_processed t h (iter (processed_hashes s)) = None"
    by (simp add: scan_processed_None)
  then show ?thesis by (simp add: detect_frame_def)
qed

lemma detect_loop_result:
  assumes it: "set_iteration iter"
  shows "keys_known s \<Longrightarrow>
    \<exists>s'. detect_loop iter t hs s = Inr s' \<and> keys_known s'
        \<and> processed_hashes s' = kept_after t (processed_hashes s) hs
        \<and> duplicates s' = duplicates s @ dups_after t (processed_hashes s) hs
        \<and> prefix (debug_log s) (debug_log s')"
proof (induction hs arbitrary: s)
  case Nil
  then show ?case by simp
next
  case (Cons x hs)
  obtain n h where x: "x = (n, h)" by (cases x)
  show ?case
  proof (cases "matched t (processed_hashes s) h")
    case True
    from detect_frame_duplicate [OF it Cons.prems True, of n]
    obtain p f where st: "detect_frame iter t s n h =
        Inr (s\<lparr>duplicates := duplicates s @ [n],
               debug_log := debug_log s @ [(n, f, hamming h p)]\<rparr>)" by blast
    let ?s1 = "s\<lparr>duplicates := duplicates s @ [n],
               debug_log := debug_log s @ [(n, f, hamming h p)]\<rparr>"
    have "keys_known ?s1" using Cons.prems by (simp add: keys_known_def)
    from Cons.IH [OF this] obtain s' where s': "detect_loop iter t hs ?s1 = Inr s'"
      "keys_known s'" "processed_hashes s' = kept_after t (processed_hashes ?s1) hs"
      "duplicates s' = duplicates ?s1 @ dups_after t (processed_hashes ?s1) hs"
      "prefix (debug_log ?s1) (debug_log s')" by blast
    have "prefix (debug_log s) (debug_log s')"
      using s'(5) by (auto simp: prefix_def)
    then show ?thesis using s' True by (simp add: x st)
  next
    case False
    let ?s1 = "s\<lparr>processed_hashes := set_add (processed_hashes s) h,
                  hash_to_frame := dict_set (hash_to_frame s) h n\<rparr>"
    have st: "detect_frame iter t s n h = Inr ?s1"
      by (rule detect_frame_unique [OF it False])
    have "keys_known ?s1" using Cons.prems
      by (auto simp: keys_known_def set_set_add fst_set_dict_set)
    from Cons.IH [OF this] obtain s' where s': "detect_loop iter t hs ?s1 = Inr s'"
      "keys_known s'" "processed_hashes s' = kept_after t (processed_hashes ?s1) hs"
      "duplicates s' = duplicates ?s1 @ dups_after t (processed_hashes ?s1) hs"
      "prefix (debug_log ?s1) (debug_log s')" by blast
    then show ?thesis using False by (simp add: x st)
  qed
qed

lemma detect_loop_append:
  "detect_loop iter t (xs @ ys) s =
     (case detect_loop iter t xs s of Inl e \<Rightarrow> Inl e | Inr s' \<Rightarrow> detect_loop iter t ys s')"
  by (induction xs arbitrary: s) (auto split: sum.splits)

lemma prefix_kept_after: "prefix ks (kept_after t ks hs)"
proof (induction hs arbitrary: ks)
  case Nil show ?case by simp
next
  case (Cons x hs)
  obtain n h where x: "x = (n, h)" by (cases x)
  have "prefix ks (if matched t ks h then ks else set_add ks h)"
    by (simp add: prefix_set_add)
  then show ?case using Cons.IH prefix_order.order_trans by (fastforce simp: x)
qed

lemma set_dups_after: "set (dups_after t ks hs) \<subseteq> fst ` set hs"
  by (induction t ks hs rule: dups_after.induct) (auto split: if_splits)

section \<open>The empty video\<close>

text \<open>
  C2 (the code departs from the claim). With a capture that opens and delivers no frame,
  \<open>extract_frames\<close> returns the empty list, hashing and detection find nothing, and
  \<open>save_unique_frames\<close> raises \<open>IndexError\<close> at \<open>frames[0]\<close>: the run ends in that error
  before any statistic is computed, whatever the interval, the threshold and the hasher.
\<close>

theorem empty_video_raises_IndexError:
  "deduplicate iter phash threshold interval (Some []) = Inl IndexError"
  by (simp add: deduplicate_def extract_frames_def generate_hashes_def find_duplicates_def
      detector_run_def save_unique_frames_def)


section \<open>The result of a run\<close>

lemma detector_run_result:
  assumes "set_iteration iter"
  shows "\<exists>s. detector_run iter t hs = Inr s \<and> keys_known s
           \<and> processed_hashes s = kept_after t [] hs
           \<and> duplicates s = dups_after t [] hs"
  using detect_loop_result [OF assms keys_known_init, of t hs]
  by (auto simp: detector_run_def detector_init_def)

lemma find_duplicates_result:
  assumes "set_iteration iter"
  shows "find_duplicates iter t hs = Inr (dups_after t [] hs)"
  using detector_run_result [OF assms, of t hs] by (auto simp: find_duplicates_def)

lemma detector_run_keys_known:
  assumes "set_iteration iter" and "detector_run iter t hs = Inr s"
  shows "keys_known s"
  using detector_run_result [OF assms(1), of t hs] assms(2) by auto

lemma detector_run_append:
  "detector_run iter t (xs @ ys) =
     (case detector_run iter t xs of Inl e \<Rightarrow> Inl e | Inr s \<Rightarrow> detect_loop iter t ys s)"
  by (simp add: detector_run_def detect_loop_append)

lemma set_iteration_insertion_order: "set_iteration insertion_order"
  by (simp add: set_iteration_def insertion_order_def)

lemma set_iteration_reverse_order: "set_iteration reverse_order"
  by (simp add: set_iteration_def reverse_order_def)

section \<open>Determinism of the classification\<close>

text \<open>
  C5. For a fixed sequence of fingerprints and a fixed threshold the classification is
  the same in every run: the detector is a function of its input, it always returns, and
  the one thing that can differ between two runs, the order in which the set of kept
  fingerprints is visited, has no influence on the list of duplicates.
\<close>

theorem classification_independent_of_set_order:
  assumes "set_iteration iter1" and "set_iteration iter2"
  shows "find_duplicates iter1 t hs = find_duplicates iter2 t hs
         \<and> (\<exists>dups. find_duplicates iter1 t hs = Inr dups)"
  by (simp add: find_duplicates_result [OF assms(1)] find_duplicates_result [OF assms(2)])

theorem classification_independent_of_set_order_witness:
  "set_iteration insertion_order \<and> set_iteration reverse_order
   \<and> find_duplicates insertion_order 5 [(0, 0), (1, 7), (2, 63), (3, 62)] =
       find_duplicates reverse_order 5 [(0, 0), (1, 7), (2, 63), (3, 62)]
   \<and> find_duplicates insertion_order 5 [(0, 0), (1, 7), (2, 63), (3, 62)] = Inr [1, 3]"
proof -
  have h1: "set_iteration insertion_order" by (rule set_iteration_insertion_order)
  have h2: "set_iteration reverse_order" by (rule set_iteration_reverse_order)
  have r: "find_duplicates insertion_order 5 [(0, 0), (1, 7), (2, 63), (3, 62)] = Inr [1, 3]"
    by code_simp
  show ?thesis
    using h1 h2 r
      classification_independent_of_set_order
        [OF h1 h2, of 5 "[(0, 0), (1, 7), (2, 63), (3, 62)]"]
    by simp
qed

section \<open>The largest threshold\<close>

lemma find_all_same:
  assumes "set ps = {h}" and "P h"
  shows "find P ps = Some h"
proof (cases ps)
  case Nil
  with assms show ?thesis by simp
next
  case (Cons p ps')
  with assms have "p = h" by auto
  with Cons assms show ?thesis by simp
qed

lemma near_64: "near 64 g h"
  using hamming_le_64 [of g h] by (simp add: near_def)

lemma detect_loop_64:
  assumes it: "set_iteration iter"
  shows "processed_hashes s = [h] \<Longrightarrow> hash_to_frame s = [(h, n)] \<Longrightarrow>
    detect_loop iter 64 rest s =
      Inr (s\<lparr>duplicates := duplicates s @ map fst rest,
             debug_log := debug_log s @ map (\<lambda>(m, g). (m, n, hamming g h)) rest\<rparr>)"
proof (induction rest arbitrary: s)
  case Nil
  then show ?case by simp
next
  case (Cons x rest)
  obtain m g where x: "x = (m, g)" by (cases x)
  have "set (iter [h]) = {h}" using it by (simp add: set_iteration_def)
  then have f: "find (near 64 g) (iter [h]) = Some h"
    by (rule find_all_same) (rule near_64)
  let ?s1 = "s\<lparr>duplicates := duplicates s @ [m],
               debug_log := debug_log s @ [(m, n, hamming g h)]\<rparr>"
  have st: "detect_frame iter 64 s m g = Inr ?s1"
    using Cons.prems by (simp add: detect_frame_def scan_processed_find f dict_get_def)
  have "detect_loop iter 64 rest ?s1 =
      Inr (?s1\<lparr>duplicates := duplicates ?s1 @ map fst rest,
             debug_log := debug_log ?s1 @ map (\<lambda>(m, g). (m, n, hamming g h)) rest\<rparr>)"
    by (rule Cons.IH) (simp_all add: Cons.prems)
  then show ?case by (simp add: x st)
qed

text \<open>
  C7. With threshold 64 and a non-empty input, the first frame is unique (it is the only
  fingerprint ever kept) and every later frame is a duplicate, reported in the debug log
  as a duplicate of the first frame.
\<close>

theorem threshold_64_all_later_frames_duplicate:
  assumes "set_iteration iter"
  shows "detector_run iter 64 ((n, h) # rest) =
           Inr \<lparr>duplicates = map fst rest, processed_hashes = [h],
                hash_to_frame = [(h, n)],
                debug_log = map (\<lambda>(m, g). (m, n, hamming g h)) rest\<rparr>
         \<and> find_duplicates iter 64 ((n, h) # rest) = Inr (map fst rest)"
proof -
  let ?s1 = "\<lparr>duplicates = [], processed_hashes = [h], hash_to_frame = [(h, n)],
              debug_log = []\<rparr>"
  have "set (iter []) = {}" using assms by (simp add: set_iteration_def)
  then have "iter [] = []" by simp
  then have st: "detect_frame iter 64 detector_init n h = Inr ?s1"
    by (simp add: detect_frame_def detector_init_def set_add_def)
  have "detect_loop iter 64 rest ?s1 =
      Inr (?s1\<lparr>duplicates := duplicates ?s1 @ map fst rest,
             debug_log := debug_log ?s1 @ map (\<lambda>(m, g). (m, n, hamming g h)) rest\<rparr>)"
    by (rule detect_loop_64 [OF assms]) simp_all
  then have run: "detector_run iter 64 ((n, h) # rest) =
           Inr \<lparr>duplicates = map fst rest, processed_hashes = [h],
                hash_to_frame = [(h, n)],
                debug_log = map (\<lambda>(m, g). (m, n, hamming g h)) rest\<rparr>"
    by (simp add: detector_run_def st)
  then show ?thesis by (simp add: find_duplicates_def)
qed

theorem threshold_64_all_later_frames_duplicate_witness:
  "set_iteration reverse_order
   \<and> detector_run reverse_order 64 [(0, 0), (1, 7), (2, 0xFFFFFFFFFFFFFFFF), (3, 7)] =
       Inr \<lparr>duplicates = [1, 2, 3], processed_hashes = [0], hash_to_frame = [(0, 0)],
            debug_log = [(1, 0, 3), (2, 0, 64), (3, 0, 3)]\<rparr>
   \<and> find_duplicates reverse_order 64 [(0, 0), (1, 7), (2, 0xFFFFFFFFFFFFFFFF), (3, 7)] =
       Inr [1, 2, 3]"
proof -
  have h: "set_iteration reverse_order" by (rule set_iteration_reverse_order)
  have d: "hamming 7 0 = 3" "hamming 0xFFFFFFFFFFFFFFFF 0 = 64" by code_simp+
  show ?thesis
    using h threshold_64_all_later_frames_duplicate
      [OF h, of 0 0 "[(1, 7), (2, 0xFFFFFFFFFFFFFFFF), (3, 7)]"]
    by (simp add: d)
qed

section \<open>The smallest threshold\<close>

lemma matched_0: "matched 0 ks h \<longleftrightarrow> h \<in> set ks"
  by (auto simp: matched_def near_def hamming_zero_iff)

text \<open>
  C8. With threshold 0, in the state reached after any sequence of items, the next frame
  is classified a duplicate exactly when its fingerprint is equal to one already kept;
  otherwise it is unique and its fingerprint is added.
\<close>

theorem threshold_0_duplicate_iff_identical:
  assumes "set_iteration iter" and "detector_run iter 0 pre = Inr s"
  shows "\<exists>s'. detector_run iter 0 (pre @ [(n, h)]) = Inr s'
     \<and> (duplicates s' = duplicates s @ [n]) = (h \<in> set (processed_hashes s))
     \<and> (if h \<in> set (processed_hashes s)
        then duplicates s' = duplicates s @ [n] \<and> processed_hashes s' = processed_hashes s
        else duplicates s' = duplicates s \<and> processed_hashes s' = processed_hashes s @ [h])"
proof -
  have kk: "keys_known s" by (rule detector_run_keys_known [OF assms])
  have run: "detector_run iter 0 (pre @ [(n, h)]) =
      (case detect_frame iter 0 s n h of Inl e \<Rightarrow> Inl e | Inr s' \<Rightarrow> Inr s')"
    by (simp add: detector_run_append assms(2) split: sum.splits)
  show ?thesis
  proof (cases "h \<in> set (processed_hashes s)")
    case True
    then have "matched 0 (processed_hashes s) h" by (simp add: matched_0)
    from detect_frame_duplicate [OF assms(1) kk this, of n]
    obtain p f where "detect_frame iter 0 s n h =
        Inr (s\<lparr>duplicates := duplicates s @ [n],
               debug_log := debug_log s @ [(n, f, hamming h p)]\<rparr>)" by blast
    then show ?thesis using True by (simp add: run)
  next
    case False
    then have "\<not> matched 0 (processed_hashes s) h" by (simp add: matched_0)
    from detect_frame_unique [OF assms(1) this, of n]
    show ?thesis using False by (simp add: run set_add_def)
  qed
qed

theorem threshold_0_duplicate_iff_identical_witness:
  "set_iteration reverse_order
   \<and> detector_run reverse_order 0 [(0, 5), (1, 4)] =
       Inr \<lparr>duplicates = [], processed_hashes = [5, 4], hash_to_frame = [(5, 0), (4, 1)],
            debug_log = []\<rparr>
   \<and> (\<exists>s'. detector_run reverse_order 0 ([(0, 5), (1, 4)] @ [(2, 5)]) = Inr s'
         \<and> duplicates s' = [2] \<and> processed_hashes s' = [5, 4])
   \<and> (\<exists>s'. detector_run reverse_order 0 ([(0, 5), (1, 4)] @ [(2, 1)]) = Inr s'
         \<and> duplicates s' = [] \<and> processed_hashes s' = [5, 4, 1])"
proof -
  have h: "set_iteration reverse_order" by (rule set_iteration_reverse_order)
  have r: "detector_run reverse_order 0 [(0, 5), (1, 4)] =
       Inr \<lparr>duplicates = [], processed_hashes = [5, 4], hash_to_frame = [(5, 0), (4, 1)],
            debug_log = []\<rparr>" by code_simp
  show ?thesis
    using h r threshold_0_duplicate_iff_identical [OF h r, of 2 5]
      threshold_0_duplicate_iff_identical [OF h r, of 2 1]
    by auto
qed

section \<open>Growth of the set of kept fingerprints\<close>

text \<open>
  C9. Processing further items only appends: the kept fingerprints, the duplicates and
  the debug log after \<open>pre\<close> are prefixes of those after \<open>pre @ later\<close>, so nothing
  is removed, and (frame numbers being distinct, as the keys of a dict are) no frame of
  \<open>pre\<close> changes its classification afterwards.
\<close>

theorem kept_set_only_grows:
  assumes "set_iteration iter" and "detector_run iter t pre = Inr s"
  shows "\<exists>s'. detector_run iter t (pre @ later) = Inr s'
     \<and> prefix (processed_hashes s) (processed_hashes s')
     \<and> prefix (duplicates s) (duplicates s')
     \<and> prefix (debug_log s) (debug_log s')
     \<and> (distinct (map fst (pre @ later)) \<longrightarrow>
          (\<forall>k \<in> fst ` set pre. (k \<in> set (duplicates s')) = (k \<in> set (duplicates s))))"
proof -
  have kk: "keys_known s" by (rule detector_run_keys_known [OF assms])
  from detect_loop_result [OF assms(1) kk, of t later]
  obtain s' where s': "detect_loop iter t later s = Inr s'"
    "processed_hashes s' = kept_after t (processed_hashes s) later"
    "duplicates s' = duplicates s @ dups_after t (processed_hashes s) later"
    "prefix (debug_log s) (debug_log s')" by blast
  have run: "detector_run iter t (pre @ later) = Inr s'"
    by (simp add: detector_run_append assms(2) s'(1))
  have p1: "prefix (processed_hashes s) (processed_hashes s')"
    by (simp add: s'(2) prefix_kept_after)
  have p2: "prefix (duplicates s) (duplicates s')" by (simp add: s'(3))
  have p3: "distinct (map fst (pre @ later)) \<longrightarrow>
          (\<forall>k \<in> fst ` set pre. (k \<in> set (duplicates s')) = (k \<in> set (duplicates s)))"
  proof (intro impI ballI)
    fix k assume d: "distinct (map fst (pre @ later))" and k: "k \<in> fst ` set pre"
    then have "k \<notin> fst ` set later" by auto
    then have "k \<notin> set (dups_after t (processed_hashes s) later)"
      using set_dups_after by blast
    then show "(k \<in> set (duplicates s')) = (k \<in> set (duplicates s))"
      by (simp add: s'(3))
  qed
  from run p1 p2 s'(4) p3 show ?thesis by blast
qed

theorem kept_set_only_grows_witness:
  "set_iteration reverse_order
   \<and> detector_run reverse_order 5 [(0, 0), (1, 7)] =
       Inr \<lparr>duplicates = [1], processed_hashes = [0], hash_to_frame = [(0, 0)],
            debug_log = [(1, 0, 3)]\<rparr>
   \<and> detector_run reverse_order 5 ([(0, 0), (1, 7)] @ [(2, 63), (3, 62)]) =
       Inr \<lparr>duplicates = [1, 3], processed_hashes = [0, 63],
            hash_to_frame = [(0, 0), (63, 2)], debug_log = [(1, 0, 3), (3, 2, 1)]\<rparr>
   \<and> distinct (map fst ([(0, 0), (1, 7)] @ [(2, 63), (3, 62 :: fingerprint)]) :: int list)
   \<and> (0::int) \<notin> set [1, 3] \<and> (1::int) \<in> set [1, 3]"
proof -
  have h: "set_iteration reverse_order" by (rule set_iteration_reverse_order)
  have r: "detector_run reverse_order 5 [(0, 0), (1, 7)] =
       Inr \<lparr>duplicates = [1], processed_hashes = [0], hash_to_frame = [(0, 0)],
            debug_log = [(1, 0, 3)]\<rparr>" by code_simp
  have r2: "detector_run reverse_order 5 ([(0, 0), (1, 7)] @ [(2, 63), (3, 62)]) =
       Inr \<lparr>duplicates = [1, 3], processed_hashes = [0, 63],
            hash_to_frame = [(0, 0), (63, 2)], debug_log = [(1, 0, 3), (3, 2, 1)]\<rparr>"
    by code_simp
  show ?thesis
    using h r r2 kept_set_only_grows [OF h r, of "[(2, 63), (3, 62)]"]
    by simp
qed


section \<open>The threshold and the number of unique frames\<close>

lemma matched_member: "0 \<le> t \<Longrightarrow> h \<in> set ks \<Longrightarrow> matched t ks h"
  by (auto simp: matched_def near_def hamming_self intro!: bexI [of _ h])

lemma length_kept_dups:
  "0 \<le> t \<Longrightarrow>
   length (kept_after t ks hs) + length (dups_after t ks hs) = length ks + length hs"
proof (induction hs arbitrary: ks)
  case Nil
  show ?case by simp
next
  case (Cons x hs)
  obtain n h where x: "x = (n, h)" by (cases x)
  show ?case
  proof (cases "matched t ks h")
    case True
    then show ?thesis using Cons.IH [OF Cons.prems, of ks] by (simp add: x)
  next
    case False
    then have "h \<notin> set ks" using matched_member [OF Cons.prems] by blast
    then have "set_add ks h = ks @ [h]" by (simp add: set_add_def)
    then show ?thesis using False Cons.IH [OF Cons.prems, of "ks @ [h]"] by (simp add: x)
  qed
qed

lemma distinct_kept_after: "distinct ks \<Longrightarrow> distinct (kept_after t ks hs)"
  by (induction t ks hs rule: kept_after.induct) (simp_all add: distinct_set_add)

lemma set_kept_after_subset: "set (kept_after t ks hs) \<subseteq> set ks \<union> snd ` set hs"
  by (induction t ks hs rule: kept_after.induct)
    (auto simp: set_set_add split: if_splits)

lemma set_kept_after_0: "set (kept_after 0 ks hs) = set ks \<union> snd ` set hs"
proof (induction hs arbitrary: ks)
  case Nil
  show ?case by simp
next
  case (Cons x hs)
  obtain n h where x: "x = (n, h)" by (cases x)
  show ?case using Cons.IH by (auto simp: x matched_0 set_set_add)
qed

lemma dups_after_Nil_Cons:
  "dups_after t [] ((n, h) # r) = dups_after t [h] r"
  by (simp add: matched_def set_add_def)

lemma kept_after_Nil_Cons:
  "kept_after t [] ((n, h) # r) = kept_after t [h] r"
  by (simp add: matched_def set_add_def)

lemma dups_after_64: "ks \<noteq> [] \<Longrightarrow> dups_after 64 ks hs = map fst hs"
proof (induction hs)
  case Nil
  show ?case by simp
next
  case (Cons x hs)
  obtain n h where x: "x = (n, h)" by (cases x)
  from Cons.prems obtain p where "p \<in> set ks" by (cases ks) auto
  then have "matched 64 ks h" using near_64 by (auto simp: matched_def)
  then show ?case using Cons by (simp add: x)
qed

lemma length_dups_after_le: "length (dups_after t ks hs) \<le> length hs"
  by (induction t ks hs rule: dups_after.induct) auto

lemma length_kept_le_at_0:
  assumes "0 \<le> t"
  shows "length (kept_after t [] hs) \<le> length (kept_after 0 [] hs)"
proof -
  have "length (kept_after t [] hs) = card (set (kept_after t [] hs))"
    by (simp add: distinct_card distinct_kept_after)
  also have "\<dots> \<le> card (snd ` set hs)"
    using set_kept_after_subset [of t "[]" hs] by (intro card_mono) auto
  also have "\<dots> = card (set (kept_after 0 [] hs))"
    by (simp add: set_kept_after_0)
  also have "\<dots> = length (kept_after 0 [] hs)"
    by (simp add: distinct_card distinct_kept_after)
  finally show ?thesis .
qed

lemma length_dups_ge_at_0:
  assumes "0 \<le> t"
  shows "length (dups_after 0 [] hs) \<le> length (dups_after t [] hs)"
  using length_kept_dups [OF assms, of "[]" hs] length_kept_dups [of 0 "[]" hs]
    length_kept_le_at_0 [OF assms, of hs]
  by simp

lemma length_dups_le_at_64:
  "length (dups_after t [] hs) \<le> length (dups_after 64 [] hs)"
proof (cases hs)
  case Nil
  then show ?thesis by simp
next
  case (Cons x r)
  obtain n h where x: "x = (n, h)" by (cases x)
  have "length (dups_after t [h] r) \<le> length r" by (rule length_dups_after_le)
  then show ?thesis by (simp only: Cons x dups_after_Nil_Cons) (simp add: dups_after_64)
qed

text \<open>
  C3 (as stated, refuted). The claim is that the number of frames classified unique never
  increases when the threshold increases. On the four fingerprints below the detector
  finds two unique frames at threshold 4 and three at threshold 5: at 5 the second frame
  becomes a duplicate of the first, is no longer kept, and the two frames that were
  duplicates of it are now unique.
\<close>

theorem unique_count_not_monotone_counterexample:
  "find_duplicates insertion_order 4 [(0, 0x1F00), (1, 0), (2, 0x0F), (3, 0xF0)] = Inr [2, 3]
   \<and> find_duplicates insertion_order 5 [(0, 0x1F00), (1, 0), (2, 0x0F), (3, 0xF0)] = Inr [1]
   \<and> count_unique [(0, 0x1F00), (1, 0), (2, 0x0F), (3, 0xF0)] [2, 3] = 2
   \<and> count_unique [(0, 0x1F00), (1, 0), (2, 0x0F), (3, 0xF0)] [1] = 3
   \<and> \<not> count_unique [(0, 0x1F00), (1, 0), (2, 0x0F), (3, 0xF0)] [1]
        \<le> count_unique [(0, 0x1F00), (1, 0), (2, 0x0F), (3, 0xF0)] [2, 3]"
proof -
  have r4: "find_duplicates insertion_order 4 [(0, 0x1F00), (1, 0), (2, 0x0F), (3, 0xF0)]
      = Inr [2, 3]" by code_simp
  have r5: "find_duplicates insertion_order 5 [(0, 0x1F00), (1, 0), (2, 0x0F), (3, 0xF0)]
      = Inr [1]" by code_simp
  show ?thesis using r4 r5 by (simp add: count_unique_def)
qed

text \<open>
  C3 (amended). For every threshold \<open>t \<ge> 0\<close>, hence for every threshold from 0 to 64,
  the number of unique frames lies between the number at threshold 64 and the number at
  threshold 0: the two ends of the range are the extremes, while between them the count
  need not be monotone.
\<close>

theorem unique_count_between_extremes:
  assumes "set_iteration iter" and "0 \<le> t"
  shows "\<exists>d0 dt d64. find_duplicates iter 0 hs = Inr d0
           \<and> find_duplicates iter t hs = Inr dt
           \<and> find_duplicates iter 64 hs = Inr d64
           \<and> count_unique hs d64 \<le> count_unique hs dt
           \<and> count_unique hs dt \<le> count_unique hs d0"
  using length_dups_ge_at_0 [OF assms(2), of hs] length_dups_le_at_64 [of t hs]
  by (simp add: find_duplicates_result [OF assms(1)] count_unique_def)

theorem unique_count_between_extremes_witness:
  "set_iteration insertion_order \<and> (0::int) \<le> 5
   \<and> find_duplicates insertion_order 0 [(0, 0x1F00), (1, 0), (2, 0x0F), (3, 0xF0)] = Inr []
   \<and> find_duplicates insertion_order 5 [(0, 0x1F00), (1, 0), (2, 0x0F), (3, 0xF0)] = Inr [1]
   \<and> find_duplicates insertion_order 64 [(0, 0x1F00), (1, 0), (2, 0x0F), (3, 0xF0)]
        = Inr [1, 2, 3]
   \<and> count_unique [(0, 0x1F00), (1, 0), (2, 0x0F), (3, 0xF0)] [1, 2, 3]
        \<le> count_unique [(0, 0x1F00), (1, 0), (2, 0x0F), (3, 0xF0)] [1]
   \<and> count_unique [(0, 0x1F00), (1, 0), (2, 0x0F), (3, 0xF0)] [1]
        \<le> count_unique [(0, 0x1F00), (1, 0), (2, 0x0F), (3, 0xF0)] []"
proof -
  have h: "set_iteration insertion_order" by (rule set_iteration_insertion_order)
  have t: "(0::int) \<le> 5" by simp
  have r0: "find_duplicates insertion_order 0 [(0, 0x1F00), (1, 0), (2, 0x0F), (3, 0xF0)]
      = Inr []" by code_simp
  have r5: "find_duplicates insertion_order 5 [(0, 0x1F00), (1, 0), (2, 0x0F), (3, 0xF0)]
      = Inr [1]" by code_simp
  have r64: "find_duplicates insertion_order 64 [(0, 0x1F00), (1, 0), (2, 0x0F), (3, 0xF0)]
      = Inr [1, 2, 3]" by code_simp
  show ?thesis
    using h r0 r5 r64
      unique_count_between_extremes [OF h t, of "[(0, 0x1F00), (1, 0), (2, 0x0F), (3, 0xF0)]"]
    by simp
qed

section \<open>Which kept frame a duplicate is reported against\<close>

text \<open>
  C4 (as stated, refuted). The claim is that a duplicate is a duplicate of the first
  kept fingerprint, in insertion order, that lies within the threshold. The kept
  fingerprints are a Python set, visited in the set's own order. When that order is the
  reverse of the insertion order, frame 2 below is within the threshold of both kept
  fingerprints; the first inserted one belongs to frame 0, and the detector reports frame 2
  a duplicate of frame 1.
\<close>

theorem duplicate_of_first_inserted_counterexample:
  "detector_run reverse_order 8 [(0, 0), (1, 0xFFFF), (2, 0xFF)] =
     Inr \<lparr>duplicates = [2], processed_hashes = [0, 0xFFFF],
          hash_to_frame = [(0, 0), (0xFFFF, 1)], debug_log = [(2, 1, 8)]\<rparr>
   \<and> find (\<lambda>q. int (hamming 0xFF q) \<le> 8) [0, 0xFFFF] = Some 0
   \<and> dict_get [(0, 0), (0xFFFF, 1 :: int)] (0 :: fingerprint) = Inr 0"
proof -
  have r: "detector_run reverse_order 8 [(0, 0), (1, 0xFFFF), (2, 0xFF)] =
     Inr \<lparr>duplicates = [2], processed_hashes = [0, 0xFFFF],
          hash_to_frame = [(0, 0), (0xFFFF, 1)], debug_log = [(2, 1, 8)]\<rparr>"
    by code_simp
  have d: "hamming 0xFF 0 = 8" by code_simp
  show ?thesis using r by (simp add: d dict_get_def)
qed

text \<open>
  C4 (amended). In the state reached after any sequence of items, a fingerprint within the
  threshold of some kept fingerprint is classified a duplicate and is not inserted (the
  kept fingerprints and their frames are unchanged); it is reported a duplicate of the
  first kept fingerprint within the threshold in the order in which the set is visited,
  which is the insertion order only when the set happens to be visited that way.
\<close>

theorem duplicate_of_first_visited_member:
  assumes "set_iteration iter" and "detector_run iter t pre = Inr s"
    and "\<exists>p\<in>set (processed_hashes s). int (hamming h p) \<le> t"
  shows "\<exists>p f. find (\<lambda>q. int (hamming h q) \<le> t) (iter (processed_hashes s)) = Some p
           \<and> p \<in> set (processed_hashes s) \<and> int (hamming h p) \<le> t
           \<and> dict_get (hash_to_frame s) p = Inr f
           \<and> detector_run iter t (pre @ [(n, h)]) =
               Inr (s\<lparr>duplicates := duplicates s @ [n],
                      debug_log := debug_log s @ [(n, f, hamming h p)]\<rparr>)"
proof -
  have kk: "keys_known s" by (rule detector_run_keys_known [OF assms(1,2)])
  have m: "matched t (processed_hashes s) h"
    using assms(3) by (simp add: matched_def near_def)
  have n: "near t h = (\<lambda>q. int (hamming h q) \<le> t)"
    by (rule ext) (simp add: near_def)
  from detect_frame_duplicate [OF assms(1) kk m, of n]
  obtain p f where pf: "find (near t h) (iter (processed_hashes s)) = Some p"
    "p \<in> set (processed_hashes s)" "near t h p"
    "map_of (hash_to_frame s) p = Some f"
    "detect_frame iter t s n h =
       Inr (s\<lparr>duplicates := duplicates s @ [n],
              debug_log := debug_log s @ [(n, f, hamming h p)]\<rparr>)" by blast
  have run: "detector_run iter t (pre @ [(n, h)]) =
       Inr (s\<lparr>duplicates := duplicates s @ [n],
              debug_log := debug_log s @ [(n, f, hamming h p)]\<rparr>)"
    by (simp add: detector_run_append assms(2) pf(5))
  have "dict_get (hash_to_frame s) p = Inr f" by (simp add: dict_get_def pf(4))
  moreover have "int (hamming h p) \<le> t" using pf(3) by (simp add: near_def)
  ultimately show ?thesis using pf(1,2) run unfolding n by blast
qed

theorem duplicate_of_first_visited_member_witness:
  "set_iteration reverse_order
   \<and> detector_run reverse_order 8 [(0, 0), (1, 0xFFFF)] =
       Inr \<lparr>duplicates = [], processed_hashes = [0, 0xFFFF],
            hash_to_frame = [(0, 0), (0xFFFF, 1)], debug_log = []\<rparr>
   \<and> (\<exists>p\<in>set [0, 0xFFFF]. int (hamming 0xFF p) \<le> 8)
   \<and> (\<exists>p f. find (\<lambda>q. int (hamming 0xFF q) \<le> 8) (reverse_order [0, 0xFFFF]) = Some p
          \<and> dict_get [(0, 0), (0xFFFF, 1)] p = Inr f
          \<and> detector_run reverse_order 8 ([(0, 0), (1, 0xFFFF)] @ [(2, 0xFF)]) =
              Inr \<lparr>duplicates = [2], processed_hashes = [0, 0xFFFF],
                   hash_to_frame = [(0, 0), (0xFFFF, 1)],
                   debug_log = [(2, f, hamming 0xFF p)]\<rparr>)"
proof -
  have h: "set_iteration reverse_order" by (rule set_iteration_reverse_order)
  have r: "detector_run reverse_order 8 [(0, 0), (1, 0xFFFF)] =
       Inr \<lparr>duplicates = [], processed_hashes = [0, 0xFFFF],
            hash_to_frame = [(0, 0), (0xFFFF, 1)], debug_log = []\<rparr>" by code_simp
  have d: "hamming 0xFF 0 = 8" by code_simp
  have e: "\<exists>p\<in>set (processed_hashes \<lparr>duplicates = [], processed_hashes = [0, 0xFFFF],
            hash_to_frame = [(0, 0), (0xFFFF, 1)], debug_log = []\<rparr>).
             int (hamming 0xFF p) \<le> 8"
    by (simp add: d)
  show ?thesis
    using h r e duplicate_of_first_visited_member [OF h r e, of 2]
    by simp blast
qed

section \<open>The three-frame scenario\<close>

text \<open>
  C6 (as stated, refuted). The scenario asks for fingerprints with distances 3 from A to
  B, 3 from B to C and 10 from A to C. The Hamming distance obeys the triangle inequality,
  so the distance from A to C is at most 6: no such fingerprints exist.
\<close>

theorem three_frame_scenario_counterexample:
  "\<not> (\<exists>A B C. hamming A B = 3 \<and> hamming B C = 3 \<and> hamming A C = 10)"
proof
  assume "\<exists>A B C. hamming A B = 3 \<and> hamming B C = 3 \<and> hamming A C = 10"
  then obtain A B C where "hamming A B = 3" "hamming B C = 3" "hamming A C = 10"
    by blast
  with hamming_triangle [of A C B] show False by simp
qed

lemma hamming_commute: "hamming a b = hamming b a"
  by (simp add: hamming_def xor.commute)

lemma find_none_same:
  assumes "set ps = {h}" and "\<not> P h"
  shows "find P ps = None"
  using assms by (auto simp: find_None_iff)

text \<open>
  C6 (amended). With distances 3 from A to B, 3 from B to C and 6 from A to C (the largest
  the first two allow) and threshold 5, A is unique, B is a duplicate of A, and C is
  unique: when C is compared only A is kept, although C is within the threshold of B.
\<close>

theorem three_frame_scenario:
  assumes "set_iteration iter"
    and "hamming A B = 3" and "hamming B C = 3" and "hamming A C = 6"
  shows "detector_run iter 5 [(a, A), (b, B), (c, C)] =
           Inr \<lparr>duplicates = [b], processed_hashes = [A, C],
                hash_to_frame = [(A, a), (C, c)], debug_log = [(b, a, 3)]\<rparr>
         \<and> find_duplicates iter 5 [(a, A), (b, B), (c, C)] = Inr [b]"
proof -
  have e: "iter [] = []"
    using assms(1) by (metis set_empty set_iteration_def)
  have sA: "set (iter [A]) = {A}" using assms(1) by (simp add: set_iteration_def)
  have nB: "near 5 B A" using assms(2) by (simp add: near_def hamming_commute)
  have nC: "\<not> near 5 C A" using assms(4) by (simp add: near_def hamming_commute)
  have fB: "find (near 5 B) (iter [A]) = Some A" by (rule find_all_same [of "iter [A]" A "near 5 B", OF sA nB])
  have fC: "find (near 5 C) (iter [A]) = None" by (rule find_none_same [of "iter [A]" A "near 5 C", OF sA nC])
  have AC: "A \<noteq> C" using assms(4) hamming_zero_iff [of A C] by auto
  have dBA: "hamming B A = 3" using assms(2) by (simp add: hamming_commute)
  have run: "detector_run iter 5 [(a, A), (b, B), (c, C)] =
           Inr \<lparr>duplicates = [b], processed_hashes = [A, C],
                hash_to_frame = [(A, a), (C, c)], debug_log = [(b, a, 3)]\<rparr>"
    using AC
    by (simp add: detector_run_def detector_init_def detect_frame_def scan_processed_find
        e fB fC set_add_def dict_get_def dBA)
  then show ?thesis by (simp add: find_duplicates_def)
qed

theorem three_frame_scenario_witness:
  "set_iteration reverse_order
   \<and> hamming 0 7 = 3 \<and> hamming 7 63 = 3 \<and> hamming 0 63 = 6
   \<and> detector_run reverse_order 5 [(0, 0), (1, 7), (2, 63)] =
           Inr \<lparr>duplicates = [1], processed_hashes = [0, 63],
                hash_to_frame = [(0, 0), (63, 2)], debug_log = [(1, 0, 3)]\<rparr>
   \<and> find_duplicates reverse_order 5 [(0, 0), (1, 7), (2, 63)] = Inr [1]"
proof -
  have h: "set_iteration reverse_order" by (rule set_iteration_reverse_order)
  have d1: "hamming 0 7 = 3" by code_simp
  have d2: "hamming 7 63 = 3" by code_simp
  have d3: "hamming 0 63 = 6" by code_simp
  show ?thesis
    using h d1 d2 d3 three_frame_scenario [OF h d1 d2 d3, of 0 1 2]
    by simp
qed

section \<open>Frames whose hashing fails\<close>

text \<open>
  A frame none of whose files can be hashed gets no entry in \<open>hashes\<close>, so the detector
  never sees it: it is not kept and not a duplicate. \<open>save_unique_frames\<close> copies every
  frame that is not in the list of duplicates, and so copies it.
\<close>

lemma keys_generate_hashes_loop:
  "fst ` set (generate_hashes_loop phash frames hashes) =
     fst ` set hashes \<union> {n. \<exists>p. (n, p) \<in> set frames \<and> phash p \<noteq> None}"
proof (induction phash frames hashes rule: generate_hashes_loop.induct)
  case (1 phash hashes)
  show ?case by simp
next
  case (2 phash frame_num frame_path frames hashes)
  show ?case
  proof (cases "phash frame_path")
    case None
    with 2 show ?thesis by auto
  next
    case (Some h)
    with 2 show ?thesis by (auto simp: fst_set_dict_set)
  qed
qed

lemma keys_generate_hashes:
  "fst ` set (generate_hashes phash frames) =
     {n. \<exists>p. (n, p) \<in> set frames \<and> phash p \<noteq> None}"
  by (simp add: generate_hashes_def keys_generate_hashes_loop)

lemma unhashed_frame_excluded_but_saved:
  assumes "set_iteration iter"
    and "(n, p) \<in> set frames"
    and "\<forall>q. (n, q) \<in> set frames \<longrightarrow> phash q = None"
  shows "n \<notin> fst ` set (generate_hashes phash frames)
     \<and> (\<exists>dups saved. find_duplicates iter t (generate_hashes phash frames) = Inr dups
           \<and> n \<notin> set dups
           \<and> save_unique_frames frames dups = Inr saved
           \<and> (n, p) \<in> set saved)"
proof -
  have k: "n \<notin> fst ` set (generate_hashes phash frames)"
    using assms(3) by (auto simp: keys_generate_hashes)
  have d: "find_duplicates iter t (generate_hashes phash frames) =
      Inr (dups_after t [] (generate_hashes phash frames))"
    by (rule find_duplicates_result [OF assms(1)])
  have nd: "n \<notin> set (dups_after t [] (generate_hashes phash frames))"
    using k set_dups_after by blast
  obtain x xs where f: "frames = x # xs" using assms(2) by (cases frames) auto
  have "save_unique_frames frames (dups_after t [] (generate_hashes phash frames)) =
      Inr (filter (\<lambda>(frame_num, frame_path).
          frame_num \<notin> set (dups_after t [] (generate_hashes phash frames))) frames)"
    by (simp add: save_unique_frames_def f)
  moreover have "(n, p) \<in> set (filter (\<lambda>(frame_num, frame_path).
          frame_num \<notin> set (dups_after t [] (generate_hashes phash frames))) frames)"
    using assms(2) nd by simp
  ultimately show ?thesis using k d nd by blast
qed

text \<open>
  C1 (the code departs from the claim). The claim is that a frame whose hashing fails is
  left out of the output entirely. For a video of two frames of which the second cannot
  be hashed, only the first gets a hash and nothing is a duplicate, yet both frames are
  copied to the output directory and the run reports two unique frames.
\<close>

theorem failed_hash_frame_is_saved:
  "generate_hashes [''good'' \<mapsto> 5] [(0, ''good''), (1, ''corrupt'')] = [(0, 5)]
   \<and> find_duplicates insertion_order 5 [(0, 5)] = Inr []
   \<and> save_unique_frames [(0, ''good''), (1, ''corrupt'')] [] =
       Inr [(0, ''good''), (1, ''corrupt'')]
   \<and> deduplicate insertion_order [''good'' \<mapsto> 5] 5 None (Some [''good'', ''corrupt'']) =
       Inr \<lparr>saved_frames = [(0, ''good''), (1, ''corrupt'')], total_frames = 2,
            duplicate_frames = 0, unique_frames = 2, reduction_percent = 0\<rparr>"
proof -
  have g: "generate_hashes [''good'' \<mapsto> 5] [(0, ''good''), (1, ''corrupt'')] = [(0, 5)]"
    by (simp add: generate_hashes_def)
  have e: "extract_frames None (Some [''good'', ''corrupt'']) =
      Inr [(0, ''good''), (1, ''corrupt'')]"
    by (simp add: extract_frames_def)
  have d: "find_duplicates insertion_order 5 [(0, 5)] = Inr []"
    by (simp add: find_duplicates_def detector_run_def detector_init_def detect_frame_def
        insertion_order_def set_add_def)
  have s: "save_unique_frames [(0, ''good''), (1, ''corrupt'')] [] =
      Inr [(0, ''good''), (1, ''corrupt'')]"
    by (simp add: save_unique_frames_def)
  have "deduplicate insertion_order [''good'' \<mapsto> 5] 5 None (Some [''good'', ''corrupt'']) =
       Inr \<lparr>saved_frames = [(0, ''good''), (1, ''corrupt'')], total_frames = 2,
            duplicate_frames = 0, unique_frames = 2, reduction_percent = 0\<rparr>"
    unfolding deduplicate_def e by (simp add: g d s)
  with g d s show ?thesis by blast
qed

section \<open>The interval 0\<close>

lemma extract_loop_None:
  "\<exists>r. extract_loop None video k acc = Inr (acc @ r) \<and> map snd r = video
        \<and> map fst r = map (\<lambda>i. k + int i) [0..<length video]"
proof (induction video arbitrary: k acc)
  case Nil
  show ?case by simp
next
  case (Cons frame rest)
  from Cons.IH [of "k + 1" "acc @ [(k, frame)]"]
  obtain r where r: "extract_loop None rest (k + 1) (acc @ [(k, frame)]) =
      Inr ((acc @ [(k, frame)]) @ r)" "map snd r = rest"
      "map fst r = map (\<lambda>i. k + 1 + int i) [0..<length rest]" by blast
  have u: "[0..<Suc (length rest)] = 0 # map Suc [0..<length rest]"
    by (metis map_Suc_upt upt_conv_Cons zero_less_Suc)
  have "map (\<lambda>i. k + int i) [0..<length (frame # rest)] =
      k # map (\<lambda>i. k + 1 + int i) [0..<length rest]"
    by (simp only: length_Cons u) (simp add: comp_def add.assoc)
  then have "extract_loop None (frame # rest) k acc = Inr (acc @ ((k, frame) # r))
      \<and> map snd ((k, frame) # r) = frame # rest
      \<and> map fst ((k, frame) # r) = map (\<lambda>i. k + int i) [0..<length (frame # rest)]"
    using r by simp
  then show ?case by (rule exI [of _ "(k, frame) # r"])
qed

text \<open>
  C10 (the code departs from the claim). The claim is that the interval 0 selects every
  frame, as no interval does. The log message is indeed the one for all frames, and
  \<open>main\<close> passes the value on unchecked, but the selection test is
  \<open>interval is None or frame_count % interval == 0\<close>: with interval 0 and a video of
  at least one frame the first pass of the loop raises \<open>ZeroDivisionError\<close>, and the
  process exits with status 1. Without an interval every frame is selected, numbered
  from 0; a negative interval is accepted and selects the multiples of its magnitude.
\<close>

theorem interval_zero_raises:
  "extract_frames (Some 0) (Some (frame # rest)) = Inl ZeroDivisionError
   \<and> main iter phash 5 (Some 0) True (Some (frame # rest)) = Exit_1 ZeroDivisionError
   \<and> interval_message (Some 0) = interval_message None
   \<and> (\<exists>frames. extract_frames None (Some (frame # rest)) = Inr frames
         \<and> map snd frames = frame # rest
         \<and> map fst frames = map int [0..<length (frame # rest)])
   \<and> extract_frames (Some (- 2)) (Some [a, b, c]) = Inr [(0, a), (2, c)]"
proof -
  have z: "extract_frames (Some 0) (Some (frame # rest)) = Inl ZeroDivisionError"
    by (simp add: extract_frames_def)
  have m: "main iter phash 5 (Some 0) True (Some (frame # rest)) = Exit_1 ZeroDivisionError"
    by (simp add: main_def deduplicate_def z)
  have l: "interval_message (Some 0) = interval_message None"
    by (simp add: interval_message_def)
  have n: "\<exists>frames. extract_frames None (Some (frame # rest)) = Inr frames
         \<and> map snd frames = frame # rest
         \<and> map fst frames = map int [0..<length (frame # rest)]"
    using extract_loop_None [of "frame # rest" 0 "[]"]
    by (simp only: extract_frames_def option.case append_Nil add_0) 
  have g: "extract_frames (Some (- 2)) (Some [a, b, c]) = Inr [(0, a), (2, c)]"
    by (simp add: extract_frames_def)
  from z m l n g show ?thesis by blast
qed

end
